theory Spec2Isabelle
  imports Complex_Main "HOL-Library.Multiset"
begin

section \<open>Python values used by the indexer and the vector store\<close>

text \<open>
  A Python \<open>str\<close> is modelled as a \<open>string\<close>, one \<open>char\<close> per code point (texts are
  restricted to the code points below 256). Python integers are \<open>int\<close>; lengths, counts
  and the indices produced by \<open>enumerate\<close> and \<open>range\<close> from a count are \<open>nat\<close>.
\<close>

text \<open>\<open>str.isspace\<close> on one character: the whitespace code points below 256.\<close>

definition isspace :: "char \<Rightarrow> bool" where
  "isspace c \<longleftrightarrow> of_char c \<in> {9, 10, 11, 12, 13, 28, 29, 30, 31, 32, 133, 160 :: nat}"

text \<open>\<open>s.strip()\<close>: leading and trailing whitespace removed.\<close>

definition strip :: "string \<Rightarrow> string" where
  "strip s = rev (dropWhile isspace (rev (dropWhile isspace s)))"

text \<open>
  The slice \<open>xs[a:b]\<close>. A negative bound counts from the end, and every bound is clamped
  to \<open>0..len(xs)\<close>; an empty range gives the empty sequence.
\<close>

definition slice_bound :: "int \<Rightarrow> int \<Rightarrow> int" where
  "slice_bound n a = (if a < 0 then max 0 (a + n) else min a n)"

definition slice_py :: "'a list \<Rightarrow> int \<Rightarrow> int \<Rightarrow> 'a list" where
  "slice_py xs a b =
     (let n = int (length xs); lo = slice_bound n a; hi = slice_bound n b
      in take (nat (hi - lo)) (drop (nat lo) xs))"

text \<open>\<open>sep.join(xs)\<close>.\<close>

fun join :: "string \<Rightarrow> string list \<Rightarrow> string" where
  "join sep [] = []"
| "join sep [x] = x"
| "join sep (x # y # ys) = x @ sep @ join sep (y # ys)"

section \<open>Chunking (\<open>rag/indexer.py\<close>)\<close>

text \<open>
  The inner loop of \<open>chunk_text_per_page\<close> for one page,
  \<^verbatim>\<open>while i < len(text): chunk = text[i:i+chunk_size].strip(); ...; i += step\<close>,
  with the two output lists as an accumulator. The loop is written for any \<open>step\<close>, as
  in the source; a run that never leaves the loop is the value \<open>None\<close>.
\<close>

partial_function (option) chunk_loop ::
  "string \<Rightarrow> int \<Rightarrow> int \<Rightarrow> int \<Rightarrow> int \<Rightarrow> string list \<times> int list \<Rightarrow> (string list \<times> int list) option"
where
  "chunk_loop text chunk_size step pidx i acc =
     (if i < int (length text) then
        chunk_loop text chunk_size step pidx (i + step)
          (if strip (slice_py text i (i + chunk_size)) \<noteq> []
           then (fst acc @ [strip (slice_py text i (i + chunk_size))], snd acc @ [pidx])
           else acc)
      else Some acc)"

declare chunk_loop.simps [code]

text \<open>The outer loop \<^verbatim>\<open>for pidx, text in enumerate(page_texts)\<close>; an empty page is skipped.\<close>

fun page_loop ::
  "(nat \<times> string) list \<Rightarrow> int \<Rightarrow> int \<Rightarrow> string list \<times> int list \<Rightarrow> (string list \<times> int list) option"
where
  "page_loop [] chunk_size step acc = Some acc"
| "page_loop ((pidx, text) # rest) chunk_size step acc =
     (if text = [] then page_loop rest chunk_size step acc
      else case chunk_loop text chunk_size step (int pidx) 0 acc of
             None \<Rightarrow> None
           | Some acc' \<Rightarrow> page_loop rest chunk_size step acc')"

definition chunk_text_per_page ::
  "string list \<Rightarrow> int \<Rightarrow> int \<Rightarrow> (string list \<times> int list) option"
where
  "chunk_text_per_page page_texts max_tokens overlap =
     (let chunk_size = max_tokens * 4;
          step = max 1 (chunk_size - overlap * 4)
      in page_loop (enumerate 0 page_texts) chunk_size step ([], []))"

section \<open>The chunk store (\<open>rag/vector_store.py\<close>)\<close>

datatype error = ProviderError | AssertionError | ValueError

text \<open>The metadata dictionary built by \<open>build_metadata\<close>; the store passes it through.\<close>

record metadata =
  source_path :: string
  chunk_index :: nat
  source_name :: string
  page :: int

text \<open>
  One row of the table \<open>documents\<close>. The two JSON columns hold the value itself:
  \<open>json.loads\<close> of \<open>json.dumps\<close> gives the value back. An embedding is the list of
  numbers of its JSON column; \<open>search\<close> converts them to \<open>float32\<close>.
\<close>

record row =
  row_id :: nat
  doc_id :: string
  chunk_id :: nat
  row_text :: string
  meta :: metadata
  embedding :: "real list"

text \<open>
  The database file: the rows of \<open>documents\<close> in rowid order (the order in which
  \<open>SELECT *\<close> reads them) and the largest id handed out so far, which
  \<open>AUTOINCREMENT\<close> keeps.
\<close>

record store =
  rows :: "row list"
  last_id :: nat

definition empty_store :: store where
  "empty_store = \<lparr>rows = [], last_id = 0\<rparr>"

text \<open>One \<open>INSERT INTO documents (doc_id, chunk_id, text, meta_json, embedding_json)\<close>.\<close>

fun insert_row :: "string \<times> nat \<times> string \<times> metadata \<times> real list \<Rightarrow> store \<Rightarrow> store" where
  "insert_row (d, i, t, m, emb) db =
     \<lparr>rows = rows db @
        [\<lparr>row_id = last_id db + 1, doc_id = d, chunk_id = i, row_text = t, meta = m, embedding = emb\<rparr>],
      last_id = last_id db + 1\<rparr>"

text \<open>
  \<open>VectorStore.add_many\<close>. The \<open>assert\<close> on the three lengths comes first; a failed
  call returns the store it was given together with the error.
\<close>

definition add_many ::
  "string \<Rightarrow> string list \<Rightarrow> metadata list \<Rightarrow> real list list \<Rightarrow> store \<Rightarrow> store \<times> error option"
where
  "add_many d chunks metadatas embeddings db =
     (if \<not> (length chunks = length metadatas \<and> length metadatas = length embeddings)
      then (db, Some AssertionError)
      else (fold insert_row
              (map (\<lambda>(i, t, m, emb). (d, i, t, m, emb))
                 (enumerate 0 (zip chunks (zip metadatas embeddings))))
              db,
            None))"

text \<open>\<open>VectorStore.all\<close>.\<close>

definition all_rows :: "store \<Rightarrow> row list" where
  "all_rows db = rows db"

subsection \<open>Similarity search\<close>

text \<open>
  \<open>search\<close> computes with NumPy: float32 arrays, their norms and products, and a sort.
  Neither the rounding of float32 arithmetic nor NumPy's sort is code of this repository,
  and neither is modelled here: the NumPy operations that \<open>search\<close> calls are
  parameters, over a type \<open>'f\<close> of float32 values about which nothing is assumed.
  \<open>np_float32\<close> is the conversion of one stored number by
  \<open>np.array(..., dtype=np.float32)\<close>, \<open>np_norm\<close> is \<open>np.linalg.norm\<close> of one vector,
  \<open>np_matmul\<close> is \<open>matrix @ query\<close>, \<open>np_mul\<close>, \<open>np_add_eps\<close> (\<open>+ 1e-12\<close>), \<open>np_div\<close>
  and \<open>np_neg\<close> act on one element, \<open>np_argsort\<close> is \<open>np.argsort\<close> with its default
  \<open>kind\<close>, and \<open>np_le\<close> is the order in which that sort compares float32 values.
\<close>

record 'f numpy =
  np_float32 :: "real \<Rightarrow> 'f"
  np_norm :: "'f list \<Rightarrow> 'f"
  np_matmul :: "'f list list \<Rightarrow> 'f list \<Rightarrow> 'f list"
  np_mul :: "'f \<Rightarrow> 'f \<Rightarrow> 'f"
  np_add_eps :: "'f \<Rightarrow> 'f"
  np_div :: "'f \<Rightarrow> 'f \<Rightarrow> 'f"
  np_neg :: "'f \<Rightarrow> 'f"
  np_argsort :: "'f list \<Rightarrow> nat list"
  np_le :: "'f \<Rightarrow> 'f \<Rightarrow> bool"

record 'f hit =
  hit_id :: nat
  hit_doc_id :: string
  hit_chunk_id :: nat
  hit_text :: string
  hit_meta :: metadata
  score :: 'f

text \<open>
  \<open>VectorStore.search\<close>, line by line. Building \<open>matrix\<close> from embeddings of different
  lengths raises \<open>ValueError\<close>, and so does \<open>matrix @ query\<close> when the query has another
  length than the rows of the matrix; both come before \<open>top_k\<close> is used.
\<close>

definition search :: "'f numpy \<Rightarrow> real list \<Rightarrow> int \<Rightarrow> store \<Rightarrow> error + 'f hit list" where
  "search np query_embedding top_k db =
     (let rws = all_rows db in
      if rws = [] then Inr []
      else if \<not> list_all (\<lambda>e. length e = length (embedding (hd rws))) (map embedding rws)
      then Inl ValueError
      else
        let matrix = map (\<lambda>r. map (np_float32 np) (embedding r)) rws;
            query = map (np_float32 np) query_embedding;
            denom = map (\<lambda>n. np_add_eps np (np_mul np n (np_norm np query)))
                      (map (np_norm np) matrix)
        in if length (hd matrix) \<noteq> length query then Inl ValueError
           else
             let sims = map2 (np_div np) (np_matmul np matrix query) denom;
                 idxs = slice_py (np_argsort np (map (np_neg np) sims)) 0 top_k
             in Inr (map (\<lambda>idx.
                       \<lparr>hit_id = row_id (rws ! idx), hit_doc_id = doc_id (rws ! idx),
                        hit_chunk_id = chunk_id (rws ! idx), hit_text = row_text (rws ! idx),
                        hit_meta = meta (rws ! idx), score = sims ! idx\<rparr>) idxs))"

section \<open>The indexing pipeline (\<open>rag/indexer.py\<close>)\<close>

text \<open>
  A PDF file as the two extraction libraries see it. \<open>pypdf_pages\<close> is \<open>None\<close> when
  reading with pypdf raises, else the result of \<open>page.extract_text()\<close> for each page
  (which may be \<open>None\<close>); \<open>pdfminer_text\<close> is \<open>None\<close> when pdfminer is missing, raises
  or returns nothing.
\<close>

record pdf_file =
  path :: string
  pypdf_pages :: "string option list option"
  pdfminer_text :: "string option"

definition extract_text_pypdf_pages :: "pdf_file \<Rightarrow> string list" where
  "extract_text_pypdf_pages f =
     (case pypdf_pages f of
        None \<Rightarrow> []
      | Some pages \<Rightarrow> map (\<lambda>t. strip (case t of None \<Rightarrow> [] | Some s \<Rightarrow> s)) pages)"

definition extract_text_pdfminer :: "pdf_file \<Rightarrow> string" where
  "extract_text_pdfminer f = (case pdfminer_text f of None \<Rightarrow> [] | Some s \<Rightarrow> strip s)"

definition extract_text_from_pdf :: "pdf_file \<Rightarrow> string list \<times> string" where
  "extract_text_from_pdf f =
     (let page_texts = extract_text_pypdf_pages f;
          combined = strip (join [CHR 0x0A] page_texts)
      in if length combined \<ge> 100 then (page_texts, ''pages'')
         else let text = extract_text_pdfminer f
              in (if text \<noteq> [] then [text] else [], ''full''))"

text \<open>\<open>os.path.basename\<close>: what follows the last slash.\<close>

definition basename :: "string \<Rightarrow> string" where
  "basename p = rev (takeWhile (\<lambda>c. c \<noteq> CHR ''/'') (rev p))"

definition build_metadata :: "string \<Rightarrow> nat \<Rightarrow> int \<Rightarrow> metadata" where
  "build_metadata p chunk_idx page_index =
     \<lparr>source_path = p, chunk_index = chunk_idx, source_name = basename p, page = page_index\<rparr>"

text \<open>
  \<open>_get_indexed_count\<close>: \<open>SELECT COUNT(*) FROM documents WHERE doc_id = ?\<close>. The table
  exists when \<open>index_pdfs\<close> asks (\<open>VectorStore(db_path)\<close> has created it), so the branch
  that answers 0 on an \<open>sqlite3.Error\<close> is not part of the model.
\<close>

definition get_indexed_count :: "store \<Rightarrow> string \<Rightarrow> nat" where
  "get_indexed_count db d = length (filter (\<lambda>r. doc_id r = d) (rows db))"

text \<open>
  The embedding provider is a service outside the program: its answer to a request may
  depend on the texts and on how many requests came before. \<open>Inl\<close> is any exception of
  \<open>embed_texts\<close>. The state of a run is the store \<open>vs\<close> and the number of requests made.
\<close>

type_synonym provider = "nat \<Rightarrow> string list \<Rightarrow> error + real list list"

record run_state =
  vs :: store
  calls :: nat

definition embed_texts :: "provider \<Rightarrow> string list \<Rightarrow> run_state \<Rightarrow> (error + real list list) \<times> run_state" where
  "embed_texts prov texts st = (prov (calls st) texts, st\<lparr>calls := calls st + 1\<rparr>)"

definition BATCH :: nat where
  "BATCH = 64"

text \<open>
  The loop \<^verbatim>\<open>for i in range(start, total, BATCH)\<close> inside \<open>try\<close>: the first exception,
  of the provider or of \<open>add_many\<close>, ends the run with what is stored so far. The
  source's \<open>total\<close> is \<open>ntotal\<close> here.
\<close>

function batch_loop ::
  "provider \<Rightarrow> string \<Rightarrow> string list \<Rightarrow> metadata list \<Rightarrow> nat \<Rightarrow> nat \<Rightarrow> run_state
   \<Rightarrow> run_state \<times> error option"
where
  "batch_loop prov p chunks metadatas ntotal i st =
     (if i < ntotal then
        let batch_chunks = slice_py chunks (int i) (int (i + BATCH));
            batch_metas = slice_py metadatas (int i) (int (i + BATCH))
        in case embed_texts prov batch_chunks st of
             (Inl e, st1) \<Rightarrow> (st1, Some e)
           | (Inr embs, st1) \<Rightarrow>
               (case add_many p batch_chunks batch_metas embs (vs st1) of
                  (db', Some e) \<Rightarrow> (st1\<lparr>vs := db'\<rparr>, Some e)
                | (db', None) \<Rightarrow>
                    batch_loop prov p chunks metadatas ntotal (i + BATCH) (st1\<lparr>vs := db'\<rparr>))
      else (st, None))"
  by pat_completeness auto
termination
  by (relation "measure (\<lambda>(prov, p, chunks, metadatas, ntotal, i, st). ntotal - i)")
     (auto simp: BATCH_def)

declare batch_loop.simps [simp del]

text \<open>
  The body of the loop over the files for one file, from \<^verbatim>\<open>if not chunks\<close> on:
  metadata, resume check, batches. The second component of the result is the exception
  that made \<open>index_pdfs\<close> return, if any.
\<close>

definition index_chunks ::
  "provider \<Rightarrow> string \<Rightarrow> string list \<Rightarrow> int list \<Rightarrow> run_state \<Rightarrow> run_state \<times> error option"
where
  "index_chunks prov p chunks page_idxs st =
     (if chunks = [] then (st, None)
      else
        let metadatas = map (\<lambda>(i, pidx). build_metadata p i pidx) (enumerate 0 page_idxs);
            already_indexed = get_indexed_count (vs st) p;
            ntotal = length chunks
        in if already_indexed \<ge> ntotal then (st, None)
           else batch_loop prov p chunks metadatas ntotal already_indexed st)"

text \<open>
  The body for one file, from extraction on. The outer \<open>option\<close> is \<open>None\<close> when the
  chunking loop does not return.
\<close>

definition index_file ::
  "provider \<Rightarrow> pdf_file \<Rightarrow> run_state \<Rightarrow> (run_state \<times> error option) option"
where
  "index_file prov f st =
     (case extract_text_from_pdf f of
        (page_texts, mode) \<Rightarrow>
          if page_texts = [] then Some (st, None)
          else if mode = ''pages'' then
            (case chunk_text_per_page page_texts 500 50 of
               None \<Rightarrow> None
             | Some (chunks, page_idxs) \<Rightarrow> Some (index_chunks prov (path f) chunks page_idxs st))
          else
            (let combined = (if page_texts \<noteq> [] then hd page_texts else []) in
             if combined = [] then Some (st, None)
             else
               (case chunk_text_per_page [combined] 500 50 of
                  None \<Rightarrow> None
                | Some (chunks, page_idxs) \<Rightarrow>
                    Some (index_chunks prov (path f) chunks (map (\<lambda>_. - 1) chunks) st))))"

text \<open>
  \<open>index_pdfs\<close> on the PDF files that the directory walk yields, in that order
  (\<open>VectorStore(db_path)\<close> has created the table).
\<close>

fun index_pdfs ::
  "provider \<Rightarrow> pdf_file list \<Rightarrow> run_state \<Rightarrow> (run_state \<times> error option) option"
where
  "index_pdfs prov [] st = Some (st, None)"
| "index_pdfs prov (f # fs) st =
     (case index_file prov f st of
        None \<Rightarrow> None
      | Some (st', Some e) \<Rightarrow> Some (st', Some e)
      | Some (st', None) \<Rightarrow> index_pdfs prov fs st')"

section \<open>The chunker, as the specification words it\<close>

text \<open>
  The window positions \<open>0, step, 2 * step, ...\<close> below the length \<open>n\<close> of a page, and
  the chunks of one page: the trimmed windows at these positions that are not empty.
\<close>

definition window_starts :: "nat \<Rightarrow> int \<Rightarrow> int list" where
  "window_starts n step = filter (\<lambda>i. i < int n) (map (\<lambda>j. int j * step) [0..<n])"

definition page_chunks :: "string \<Rightarrow> int \<Rightarrow> int \<Rightarrow> string list" where
  "page_chunks text chunk_size step =
     filter (\<lambda>c. c \<noteq> [])
       (map (\<lambda>i. strip (slice_py text i (i + chunk_size))) (window_starts (length text) step))"

text \<open>
  The positions still to come when the loop stands at \<open>i\<close>.
\<close>

definition starts_from :: "nat \<Rightarrow> int \<Rightarrow> int \<Rightarrow> int list" where
  "starts_from n step i = filter (\<lambda>p. p < int n) (map (\<lambda>j. i + int j * step) [0..<n])"

section \<open>What is stored for a document\<close>

text \<open>
  The rows that a list of \<open>INSERT\<close> tuples adds when the largest id so far is \<open>n\<close>.
\<close>

fun new_rows :: "nat \<Rightarrow> (string \<times> nat \<times> string \<times> metadata \<times> real list) list \<Rightarrow> row list" where
  "new_rows n [] = []"
| "new_rows n ((d, i, t, m, emb) # ts) =
     \<lparr>row_id = n + 1, doc_id = d, chunk_id = i, row_text = t, meta = m, embedding = emb\<rparr>
     # new_rows (n + 1) ts"

text \<open>
  The texts, the \<open>chunk_id\<close> column and the \<open>chunk_index\<close> metadata of the rows of
  document \<open>d\<close>, in storage order.
\<close>

definition doc_texts :: "store \<Rightarrow> string \<Rightarrow> string list" where
  "doc_texts db d = map row_text (filter (\<lambda>r. doc_id r = d) (rows db))"

definition doc_chunk_ids :: "store \<Rightarrow> string \<Rightarrow> nat list" where
  "doc_chunk_ids db d = map chunk_id (filter (\<lambda>r. doc_id r = d) (rows db))"

definition doc_meta_indexes :: "store \<Rightarrow> string \<Rightarrow> nat list" where
  "doc_meta_indexes db d = map (\<lambda>r. chunk_index (meta r)) (filter (\<lambda>r. doc_id r = d) (rows db))"

text \<open>
  The chunks and page indices that \<open>index_pdfs\<close> computes for a file before the resume
  check (\<open>max_tokens = 500\<close>, \<open>overlap = 50\<close>: windows of 2000 characters every 1800),
  in closed form; lemma \<open>index_file_eq\<close> below proves that the code computes them. A
  file that is skipped for lack of text has none.
\<close>

definition file_chunks :: "pdf_file \<Rightarrow> string list \<times> int list" where
  "file_chunks f =
     (case extract_text_from_pdf f of
        (page_texts, mode) \<Rightarrow>
          if mode = ''pages'' then
            (concat (map (\<lambda>t. page_chunks t 2000 1800) page_texts),
             concat (map (\<lambda>(p, t). replicate (length (page_chunks t 2000 1800)) (int p))
                       (enumerate 0 page_texts)))
          else
            (concat (map (\<lambda>t. page_chunks t 2000 1800) (take 1 page_texts)),
             map (\<lambda>_. - 1) (concat (map (\<lambda>t. page_chunks t 2000 1800) (take 1 page_texts)))))"

text \<open>
  The provider answers request number \<open>n\<close> for \<open>texts\<close>: it returns one vector for each
  text.
\<close>

definition answers :: "provider \<Rightarrow> nat \<Rightarrow> string list \<Rightarrow> bool" where
  "answers prov n texts \<longleftrightarrow>
     (case prov n texts of Inl e \<Rightarrow> False | Inr embs \<Rightarrow> length embs = length texts)"

section \<open>Search results, as the specification words them\<close>

text \<open>
  The store and the query agree on the dimension: the precondition of the search
  contract. It holds for the empty store and any query.
\<close>

definition dims_ok :: "store \<Rightarrow> real list \<Rightarrow> bool" where
  "dims_ok db q \<longleftrightarrow> list_all (\<lambda>r. length (embedding r) = length q) (rows db)"

text \<open>
  The scores that NumPy computes for the rows of a store, the result record of a row with
  its score, and the row indices that \<open>search\<close> returns: \<open>np.argsort(-sims)[:top_k]\<close>.
\<close>

definition sims_of :: "'f numpy \<Rightarrow> store \<Rightarrow> real list \<Rightarrow> 'f list" where
  "sims_of np db q =
     map2 (np_div np)
       (np_matmul np (map (\<lambda>r. map (np_float32 np) (embedding r)) (rows db))
          (map (np_float32 np) q))
       (map (\<lambda>n. np_add_eps np (np_mul np n (np_norm np (map (np_float32 np) q))))
          (map (np_norm np) (map (\<lambda>r. map (np_float32 np) (embedding r)) (rows db))))"

definition hit_of :: "row \<Rightarrow> 'f \<Rightarrow> 'f hit" where
  "hit_of r s = \<lparr>hit_id = row_id r, hit_doc_id = doc_id r, hit_chunk_id = chunk_id r,
                 hit_text = row_text r, hit_meta = meta r, score = s\<rparr>"

definition ranking :: "'f numpy \<Rightarrow> real list \<Rightarrow> int \<Rightarrow> store \<Rightarrow> nat list" where
  "ranking np q top_k db =
     slice_py (np_argsort np (map (np_neg np) (sims_of np db q))) 0 top_k"

text \<open>
  What is assumed of NumPy: the product of a matrix with a vector of the length of its
  rows has one entry for each row; \<open>np.argsort\<close> returns the indices of its input, each
  once, in an order that sorts the keys in NumPy's order. The order among equal keys is
  not part of it.
\<close>

definition numpy_contract :: "'f numpy \<Rightarrow> bool" where
  "numpy_contract np \<longleftrightarrow>
     (\<forall>m q. list_all (\<lambda>r. length r = length q) m \<longrightarrow> length (np_matmul np m q) = length m)
     \<and> (\<forall>keys. sort (np_argsort np keys) = [0..<length keys])
     \<and> (\<forall>keys. sorted_wrt (\<lambda>i j. np_le np (keys ! i) (keys ! j)) (np_argsort np keys))"

text \<open>
  One instance that keeps these promises: the operations without any rounding, on the
  reals, with a stable sort. It is not NumPy's float32 arithmetic; it shows that the
  promises can be kept, on inputs where the result does not depend on the arithmetic.
\<close>

definition ideal_numpy :: "real numpy" where
  "ideal_numpy =
     \<lparr>np_float32 = (\<lambda>x. x),
      np_norm = (\<lambda>v. sqrt (sum_list (map (\<lambda>x. x * x) v))),
      np_matmul = (\<lambda>m q. map (\<lambda>r. sum_list (map2 (\<lambda>x y. x * y) r q)) m),
      np_mul = (\<lambda>x y. x * y),
      np_add_eps = (\<lambda>x. x + 1 / 10 ^ 12),
      np_div = (\<lambda>x y. x / y),
      np_neg = (\<lambda>x. - x),
      np_argsort = (\<lambda>keys. sort_key (\<lambda>i. keys ! i) [0..<length keys]),
      np_le = (\<lambda>x y. x \<le> y)\<rparr>"

section \<open>Concrete inputs\<close>

text \<open>
  Three providers: one that always answers, one that answers only its first request, one
  that never answers.
\<close>

definition always_embeds :: provider where
  "always_embeds n texts = Inr (map (\<lambda>_. [1, 0]) texts)"

definition fails_on_second :: provider where
  "fails_on_second n texts = (if n = 0 then Inr (map (\<lambda>_. [1, 0]) texts) else Inl ProviderError)"

definition never_embeds :: provider where
  "never_embeds n texts = Inl ProviderError"

text \<open>
  A PDF of 65 pages with the text \<open>a\<close> on each (65 chunks, one more than a batch), and
  a scanned PDF whose text only pdfminer finds (one chunk); a run that starts on an empty
  database, and the state after indexing the scanned PDF.
\<close>

definition pdf65 :: pdf_file where
  "pdf65 = \<lparr>path = ''data/pdfs/a.pdf'', pypdf_pages = Some (replicate 65 (Some ''a'')), pdfminer_text = None\<rparr>"

definition small_pdf :: pdf_file where
  "small_pdf = \<lparr>path = ''data/pdfs/b.pdf'', pypdf_pages = Some [Some ''scan''],
                 pdfminer_text = Some '' Cells are the basic unit of life. ''\<rparr>"

definition fresh :: run_state where
  "fresh = \<lparr>vs = empty_store, calls = 0\<rparr>"

definition small_indexed :: run_state where
  "small_indexed =
     \<lparr>vs = \<lparr>rows =
              [\<lparr>row_id = 1, doc_id = ''data/pdfs/b.pdf'', chunk_id = 0,
                row_text = ''Cells are the basic unit of life.'',
                meta = \<lparr>source_path = ''data/pdfs/b.pdf'', chunk_index = 0,
                        source_name = ''b.pdf'', page = - 1\<rparr>,
                embedding = [1, 0]\<rparr>],
            last_id = 1\<rparr>,
      calls = 1\<rparr>"

text \<open>
  Two stores that already hold rows of a document: one of three rows with the
  embeddings \<open>[1,0]\<close>, \<open>[0,1]\<close>, \<open>[1,1]\<close>, one of two rows with the same embedding.
\<close>

definition meta0 :: metadata where
  "meta0 = \<lparr>source_path = ''a.pdf'', chunk_index = 0, source_name = ''a.pdf'', page = 0\<rparr>"

definition example_store :: store where
  "example_store =
     \<lparr>rows =
        [\<lparr>row_id = 1, doc_id = ''a.pdf'', chunk_id = 0, row_text = ''x'',
          meta = \<lparr>source_path = ''a.pdf'', chunk_index = 0, source_name = ''a.pdf'', page = 0\<rparr>,
          embedding = [1, 0]\<rparr>,
         \<lparr>row_id = 2, doc_id = ''a.pdf'', chunk_id = 1, row_text = ''y'',
          meta = \<lparr>source_path = ''a.pdf'', chunk_index = 1, source_name = ''a.pdf'', page = 0\<rparr>,
          embedding = [0, 1]\<rparr>,
         \<lparr>row_id = 3, doc_id = ''a.pdf'', chunk_id = 2, row_text = ''z'',
          meta = \<lparr>source_path = ''a.pdf'', chunk_index = 2, source_name = ''a.pdf'', page = 1\<rparr>,
          embedding = [1, 1]\<rparr>],
      last_id = 3\<rparr>"

definition tie_store :: store where
  "tie_store =
     \<lparr>rows =
        [\<lparr>row_id = 1, doc_id = ''a.pdf'', chunk_id = 0, row_text = ''first'',
          meta = \<lparr>source_path = ''a.pdf'', chunk_index = 0, source_name = ''a.pdf'', page = 0\<rparr>,
          embedding = [1, 0]\<rparr>,
         \<lparr>row_id = 2, doc_id = ''a.pdf'', chunk_id = 1, row_text = ''second'',
          meta = \<lparr>source_path = ''a.pdf'', chunk_index = 1, source_name = ''a.pdf'', page = 0\<rparr>,
          embedding = [1, 0]\<rparr>],
      last_id = 2\<rparr>"

section \<open>Chunking: the loop computes the windows of the specification\<close>

lemma starts_from_done: "int n \<le> i \<Longrightarrow> 1 \<le> step \<Longrightarrow> starts_from n step i = []"
proof -
  assume a: "int n \<le> i" "1 \<le> step"
  have "\<And>j. \<not> (i + int j * step < int n)"
  proof -
    fix j
    have "0 \<le> int j * step" using a by simp
    then show "\<not> (i + int j * step < int n)" using a by linarith
  qed
  then show ?thesis by (simp add: starts_from_def filter_empty_conv)
qed

lemma starts_from_step:
  assumes "0 \<le> i" "i < int n" "1 \<le> step"
  shows "starts_from n step i = i # starts_from n step (i + step)"
proof -
  from assms obtain m where n: "n = Suc m" by (cases n) auto
  have up: "[0..<Suc m] = 0 # map Suc [0..<m]"
    by (simp add: upt_conv_Cons map_Suc_upt del: upt_Suc)
  have last: "\<not> (i + step + int m * step < int n)"
  proof -
    have "int m * 1 \<le> int m * step" using assms(3) by (intro mult_left_mono) auto
    then show ?thesis using assms n by (simp add: algebra_simps)
  qed
  have "starts_from n step i =
        filter (\<lambda>p. p < int n) (i # map (\<lambda>j. i + step + int j * step) [0..<m])"
    unfolding starts_from_def n up by (simp add: algebra_simps comp_def del: upt_Suc)
  also have "\<dots> = i # filter (\<lambda>p. p < int n) (map (\<lambda>j. i + step + int j * step) [0..<m])"
    using assms by simp
  also have "filter (\<lambda>p. p < int n) (map (\<lambda>j. i + step + int j * step) [0..<m])
             = starts_from n step (i + step)"
    unfolding starts_from_def n using last n by simp
  finally show ?thesis .
qed

lemma chunk_loop_closed:
  assumes "1 \<le> step" "0 \<le> i"
  shows "chunk_loop text chunk_size step pidx i acc =
         Some (fst acc @ filter (\<lambda>c. c \<noteq> [])
                 (map (\<lambda>p. strip (slice_py text p (p + chunk_size))) (starts_from (length text) step i)),
               snd acc @ replicate (length (filter (\<lambda>c. c \<noteq> [])
                 (map (\<lambda>p. strip (slice_py text p (p + chunk_size))) (starts_from (length text) step i)))) pidx)"
  using assms(2)
proof (induction "nat (int (length text) - i)" arbitrary: i acc rule: less_induct)
  case less
  show ?case
  proof (cases "i < int (length text)")
    case False
    then have "starts_from (length text) step i = []"
      using assms(1) by (intro starts_from_done) auto
    with False show ?thesis by (subst chunk_loop.simps) simp
  next
    case True
    have st: "starts_from (length text) step i = i # starts_from (length text) step (i + step)"
      using less.prems True assms(1) by (rule starts_from_step)
    have m: "nat (int (length text) - (i + step)) < nat (int (length text) - i)"
      using True assms(1) by linarith
    have nn: "0 \<le> i + step" using less.prems assms(1) by linarith
    show ?thesis
      apply (subst chunk_loop.simps)
      apply (simp only: True if_True less.hyps[OF m nn] st)
      apply (simp add: replicate_append_same)
      done
  qed
qed

lemma starts_from_0: "starts_from n step 0 = window_starts n step"
  by (simp add: starts_from_def window_starts_def)

lemma chunk_loop_page:
  assumes "1 \<le> step"
  shows "chunk_loop text chunk_size step pidx 0 acc =
         Some (fst acc @ page_chunks text chunk_size step,
               snd acc @ replicate (length (page_chunks text chunk_size step)) pidx)"
  using chunk_loop_closed[OF assms, of 0] by (simp add: starts_from_0 page_chunks_def)

lemma page_chunks_Nil: "page_chunks [] chunk_size step = []"
  by (simp add: page_chunks_def window_starts_def)

lemma page_loop_closed:
  assumes "1 \<le> step"
  shows "page_loop ps chunk_size step acc =
         Some (fst acc @ concat (map (\<lambda>(p, t). page_chunks t chunk_size step) ps),
               snd acc @ concat (map (\<lambda>(p, t). replicate (length (page_chunks t chunk_size step)) (int p)) ps))"
proof (induction ps arbitrary: acc)
  case Nil
  show ?case by simp
next
  case (Cons a ps)
  obtain p t where a: "a = (p, t)" by (cases a)
  show ?case
    by (simp add: a Cons.IH chunk_loop_page[OF assms] page_chunks_Nil)
qed

lemma page_chunks_nonempty: "[] \<notin> set (page_chunks text chunk_size step)"
  by (simp add: page_chunks_def)

lemma map_snd_enumerate_fun: "map (\<lambda>(p, t). f t) (enumerate n xs) = map f xs"
  by (induction xs arbitrary: n) auto

text \<open>
  Without the floor of 1 the loop would not return: with a step of 0 or less it never
  leaves a page that it has entered.
\<close>

lemma chunk_loop_returns_only_with_progress:
  assumes "chunk_loop ptext chunk_size step pidx i acc = Some r"
  shows "\<not> (step \<le> 0 \<and> i < int (length ptext))"
proof (rule chunk_loop.raw_induct[where P = "\<lambda>ptext chunk_size step pidx i acc r. \<not> (step \<le> 0 \<and> i < int (length ptext))"])
  show "chunk_loop ptext chunk_size step pidx i acc = Some r" by (rule assms)
next
  fix f :: "string \<Rightarrow> int \<Rightarrow> int \<Rightarrow> int \<Rightarrow> int \<Rightarrow> string list \<times> int list \<Rightarrow> (string list \<times> int list) option"
  fix ptext chunk_size step pidx i acc r
  assume ih: "\<And>ptext chunk_size step pidx i acc r.
        f ptext chunk_size step pidx i acc = Some r \<Longrightarrow> \<not> (step \<le> 0 \<and> i < int (length ptext))"
    and eq: "(if i < int (length ptext)
      then f ptext chunk_size step pidx (i + step)
            (if strip (slice_py ptext i (i + chunk_size)) \<noteq> []
             then (fst acc @ [strip (slice_py ptext i (i + chunk_size))], snd acc @ [pidx])
             else acc)
      else Some acc) = Some r"
  show "\<not> (step \<le> 0 \<and> i < int (length ptext))"
  proof
    assume a: "step \<le> 0 \<and> i < int (length ptext)"
    then have lt: "i + step < int (length ptext)" by simp
    from eq a obtain acc' where "f ptext chunk_size step pidx (i + step) acc' = Some r"
      by (simp split: if_splits)
    from ih[OF this] a lt show False by simp
  qed
qed

lemma chunk_loop_no_progress:
  assumes "step \<le> 0" "i < int (length ptext)"
  shows "chunk_loop ptext chunk_size step pidx i acc = None"
proof (cases "chunk_loop ptext chunk_size step pidx i acc")
  case None
  then show ?thesis .
next
  case (Some r)
  from chunk_loop_returns_only_with_progress[OF this] assms show ?thesis by simp
qed

lemma chunk_text_per_page_closed:
  "chunk_text_per_page page_texts max_tokens overlap =
     Some (concat (map (\<lambda>t. page_chunks t (max_tokens * 4) (max 1 (max_tokens * 4 - overlap * 4))) page_texts),
           concat (map (\<lambda>(p, t). replicate (length (page_chunks t (max_tokens * 4)
                     (max 1 (max_tokens * 4 - overlap * 4)))) (int p)) (enumerate 0 page_texts)))"
proof -
  have s: "(1::int) \<le> max 1 (max_tokens * 4 - overlap * 4)" by simp
  have e: "map (\<lambda>(p, t). page_chunks t c s) (enumerate 0 page_texts) = map (\<lambda>t. page_chunks t c s) page_texts" for c s
    by (rule map_snd_enumerate_fun)
  show ?thesis
    unfolding chunk_text_per_page_def Let_def page_loop_closed[OF s]
    by (simp add: e)
qed

text \<open>
  C8. For all page texts and all integers \<open>max_tokens\<close> and \<open>overlap\<close>,
  \<open>chunk_text_per_page\<close> returns (the loop ends on every input, its step being at least 1):
  it emits, page after page, the trimmed windows \<open>text[i : i + max_tokens * 4]\<close> at the
  positions \<open>0, step, 2 * step, ...\<close> below \<open>len(text)\<close>, where
  \<open>step = max(1, max_tokens * 4 - overlap * 4)\<close>, without the windows that are empty after
  trimming, each with the index of its page; no emitted chunk is empty.
\<close>

theorem chunk_text_per_page_windows:
  "chunk_text_per_page page_texts max_tokens overlap =
     Some (concat (map (\<lambda>t. page_chunks t (max_tokens * 4) (max 1 (max_tokens * 4 - overlap * 4))) page_texts),
           concat (map (\<lambda>(p, t). replicate (length (page_chunks t (max_tokens * 4)
                     (max 1 (max_tokens * 4 - overlap * 4)))) (int p)) (enumerate 0 page_texts)))
   \<and> [] \<notin> set (concat (map (\<lambda>t. page_chunks t (max_tokens * 4) (max 1 (max_tokens * 4 - overlap * 4))) page_texts))"
  using chunk_text_per_page_closed[of page_texts max_tokens overlap]
  by (simp add: page_chunks_nonempty)

section \<open>The chunk store: \<open>add_many\<close>\<close>

lemma slice_py_nat: "slice_py xs (int i) (int j) = take (j - i) (drop i xs)"
proof (cases "i \<le> length xs")
  case True
  then show ?thesis
    by (cases "j \<le> length xs") (auto simp: slice_py_def slice_bound_def Let_def min_def nat_diff_distrib')
next
  case False
  then show ?thesis
    by (auto simp: slice_py_def slice_bound_def Let_def min_def)
qed

lemma fold_insert_row:
  "fold insert_row ts db = \<lparr>rows = rows db @ new_rows (last_id db) ts, last_id = last_id db + length ts\<rparr>"
proof (induction ts arbitrary: db)
  case Nil
  show ?case by simp
next
  case (Cons a ts)
  obtain d i t m emb where a: "a = (d, i, t, m, emb)" by (cases a)
  show ?case by (simp add: a Cons.IH)
qed

lemma new_rows_proj:
  "map doc_id (new_rows n ts) = map fst ts"
  "map chunk_id (new_rows n ts) = map (\<lambda>x. fst (snd x)) ts"
  "map row_text (new_rows n ts) = map (\<lambda>x. fst (snd (snd x))) ts"
  "map meta (new_rows n ts) = map (\<lambda>x. fst (snd (snd (snd x)))) ts"
  "map embedding (new_rows n ts) = map (\<lambda>x. snd (snd (snd (snd x)))) ts"
  "map row_id (new_rows n ts) = [n + 1 ..< n + 1 + length ts]"
  "length (new_rows n ts) = length ts"
  by (induction n ts rule: new_rows.induct) (auto simp: upt_conv_Cons)

lemma map_enumerate_snd: "map (\<lambda>x. h (snd x)) (enumerate k zs) = map h zs"
  by (induction zs arbitrary: k) auto

lemma zip3_proj:
  assumes "length cs = length ms" "length ms = length es"
  shows "map fst (zip cs (zip ms es)) = cs"
    and "map (\<lambda>x. fst (snd x)) (zip cs (zip ms es)) = ms"
    and "map (\<lambda>x. snd (snd x)) (zip cs (zip ms es)) = es"
  using assms by (induction cs ms es rule: list_induct3) auto

lemma enum_zip3_proj:
  assumes "length cs = length ms" "length ms = length es"
  shows "map (\<lambda>x. fst (snd x)) (map (\<lambda>(i, t, m, emb). (d, i, t, m, emb)) (enumerate k (zip cs (zip ms es)))) = [k ..< k + length cs]"
    and "map (\<lambda>x. fst (snd (snd x))) (map (\<lambda>(i, t, m, emb). (d, i, t, m, emb)) (enumerate k (zip cs (zip ms es)))) = cs"
    and "map (\<lambda>x. fst (snd (snd (snd x)))) (map (\<lambda>(i, t, m, emb). (d, i, t, m, emb)) (enumerate k (zip cs (zip ms es)))) = ms"
    and "map (\<lambda>x. snd (snd (snd (snd x)))) (map (\<lambda>(i, t, m, emb). (d, i, t, m, emb)) (enumerate k (zip cs (zip ms es)))) = es"
    and "map fst (map (\<lambda>(i, t, m, emb). (d, i, t, m, emb)) (enumerate k (zip cs (zip ms es)))) = replicate (length cs) d"
proof -
  let ?zs = "zip cs (zip ms es)"
  have len: "length ?zs = length cs" using assms by simp
  show "map (\<lambda>x. fst (snd x)) (map (\<lambda>(i, t, m, emb). (d, i, t, m, emb)) (enumerate k ?zs)) = [k ..< k + length cs]"
    using map_fst_enumerate[of k ?zs] len by (simp add: comp_def case_prod_unfold)
  show "map (\<lambda>x. fst (snd (snd x))) (map (\<lambda>(i, t, m, emb). (d, i, t, m, emb)) (enumerate k ?zs)) = cs"
    using map_enumerate_snd[of fst k ?zs] zip3_proj(1)[OF assms] by (simp add: comp_def case_prod_unfold)
  show "map (\<lambda>x. fst (snd (snd (snd x)))) (map (\<lambda>(i, t, m, emb). (d, i, t, m, emb)) (enumerate k ?zs)) = ms"
    using map_enumerate_snd[of "\<lambda>x. fst (snd x)" k ?zs] zip3_proj(2)[OF assms] by (simp add: comp_def case_prod_unfold)
  show "map (\<lambda>x. snd (snd (snd (snd x)))) (map (\<lambda>(i, t, m, emb). (d, i, t, m, emb)) (enumerate k ?zs)) = es"
    using map_enumerate_snd[of "\<lambda>x. snd (snd x)" k ?zs] zip3_proj(3)[OF assms] by (simp add: comp_def case_prod_unfold)
  show "map fst (map (\<lambda>(i, t, m, emb). (d, i, t, m, emb)) (enumerate k ?zs)) = replicate (length cs) d"
    using len by (simp add: comp_def case_prod_unfold map_replicate_const)
qed

lemma add_many_ok:
  assumes "length chunks = length metadatas" "length metadatas = length embeddings"
  obtains new where
    "add_many d chunks metadatas embeddings db =
       (\<lparr>rows = rows db @ new, last_id = last_id db + length chunks\<rparr>, None)"
    "map doc_id new = replicate (length chunks) d"
    "map chunk_id new = [0..<length chunks]"
    "map row_text new = chunks"
    "map meta new = metadatas"
    "map embedding new = embeddings"
    "map row_id new = [last_id db + 1 ..< last_id db + 1 + length chunks]"
proof -
  let ?ts = "map (\<lambda>(i, t, m, emb). (d, i, t, m, emb)) (enumerate 0 (zip chunks (zip metadatas embeddings)))"
  have len: "length ?ts = length chunks" using assms by simp
  show thesis
  proof (rule that[of "new_rows (last_id db) ?ts"])
    show "add_many d chunks metadatas embeddings db =
       (\<lparr>rows = rows db @ new_rows (last_id db) ?ts, last_id = last_id db + length chunks\<rparr>, None)"
      using assms by (simp add: add_many_def fold_insert_row)
  qed (simp_all only: new_rows_proj enum_zip3_proj[OF assms] len add_0)
qed

lemma add_many_result:
  "add_many d cs ms es db = (db', r) \<Longrightarrow>
   (r = Some AssertionError \<and> db' = db) \<or>
   (r = None \<and> length cs = length ms \<and> length ms = length es)"
  by (auto simp: add_many_def split: if_splits)

text \<open>
  C7. When \<open>chunks\<close>, \<open>metadatas\<close> and \<open>embeddings\<close> do not all have the same length,
  \<open>add_many\<close> fails on its length check (an \<open>AssertionError\<close>) and the store is the one
  it was given: no row is persisted.
\<close>

theorem add_many_unequal_lengths_persists_nothing:
  "\<not> (length chunks = length metadatas \<and> length metadatas = length embeddings) \<Longrightarrow>
   add_many d chunks metadatas embeddings db = (db, Some AssertionError)"
  by (simp add: add_many_def)

theorem add_many_unequal_lengths_persists_nothing_witness:
  "\<not> (length [''x'', ''y''] = length [meta0] \<and> length [meta0] = length [[1, 0 :: real]])
   \<and> add_many ''a.pdf'' [''x'', ''y''] [meta0] [[1, 0]] tie_store = (tie_store, Some AssertionError)"
  using add_many_unequal_lengths_persists_nothing[of "[''x'', ''y'']" "[meta0]" "[[1, 0]]" "''a.pdf''" tie_store]
  by simp

text \<open>
  C9. One call of \<open>add_many\<close> with \<open>n\<close> chunks (and as many metadatas and embeddings)
  succeeds, keeps the rows already stored and appends rows whose \<open>chunk_id\<close> values are
  \<open>0, ..., n - 1\<close>, the positions within this call, whatever the store already holds for
  the document.
\<close>

theorem add_many_chunk_ids_restart:
  assumes "length chunks = length metadatas" "length metadatas = length embeddings"
  shows "snd (add_many d chunks metadatas embeddings db) = None
       \<and> take (length (rows db)) (rows (fst (add_many d chunks metadatas embeddings db))) = rows db
       \<and> map chunk_id (drop (length (rows db)) (rows (fst (add_many d chunks metadatas embeddings db))))
           = [0..<length chunks]"
proof -
  obtain new where
    "add_many d chunks metadatas embeddings db =
       (\<lparr>rows = rows db @ new, last_id = last_id db + length chunks\<rparr>, None)"
    "map chunk_id new = [0..<length chunks]"
    using add_many_ok[OF assms] by metis
  then show ?thesis by simp
qed

theorem add_many_chunk_ids_restart_witness:
  "length [''x'', ''y''] = length [meta0, meta0]
   \<and> length [meta0, meta0] = length [[1, 0], [0, 1 :: real]]
   \<and> snd (add_many ''a.pdf'' [''x'', ''y''] [meta0, meta0] [[1, 0], [0, 1]] tie_store) = None
   \<and> take (length (rows tie_store))
        (rows (fst (add_many ''a.pdf'' [''x'', ''y''] [meta0, meta0] [[1, 0], [0, 1]] tie_store)))
       = rows tie_store
   \<and> map chunk_id (drop (length (rows tie_store))
        (rows (fst (add_many ''a.pdf'' [''x'', ''y''] [meta0, meta0] [[1, 0], [0, 1]] tie_store))))
       = [0..<length [''x'', ''y'']]"
  using add_many_chunk_ids_restart[of "[''x'', ''y'']" "[meta0, meta0]" "[[1, 0], [0, 1]]" "''a.pdf''" tie_store]
  by simp

section \<open>The batch loop\<close>

lemma batch_loop_done: "\<not> i < ntotal \<Longrightarrow> batch_loop prov p chunks metadatas ntotal i st = (st, None)"
  by (subst batch_loop.simps) simp

lemma batch_loop_step:
  assumes "i < ntotal" "ntotal = length chunks" "length metadatas = ntotal"
    and "answers prov (calls st) (take BATCH (drop i chunks))"
  shows "\<exists>st1 new.
           batch_loop prov p chunks metadatas ntotal i st =
             batch_loop prov p chunks metadatas ntotal (i + BATCH) st1
         \<and> calls st1 = calls st + 1
         \<and> rows (vs st1) = rows (vs st) @ new
         \<and> map doc_id new = replicate (length new) p
         \<and> map row_text new = take BATCH (drop i chunks)
         \<and> map meta new = take BATCH (drop i metadatas)
         \<and> map chunk_id new = [0..<length new]"
proof -
  let ?bc = "take BATCH (drop i chunks)" and ?bm = "take BATCH (drop i metadatas)"
  from assms(4) obtain embs where e: "prov (calls st) ?bc = Inr embs" "length embs = length ?bc"
    by (auto simp: answers_def split: sum.splits)
  have l1: "length ?bc = length ?bm" using assms by simp
  have l2: "length ?bm = length embs" using e l1 by simp
  let ?st1 = "st\<lparr>calls := calls st + 1\<rparr>"
  obtain new where n:
    "add_many p ?bc ?bm embs (vs st) =
       (\<lparr>rows = rows (vs st) @ new, last_id = last_id (vs st) + length ?bc\<rparr>, None)"
    "map doc_id new = replicate (length ?bc) p"
    "map chunk_id new = [0..<length ?bc]"
    "map row_text new = ?bc"
    "map meta new = ?bm"
    using add_many_ok[OF l1 l2, of p "vs st"] by metis
  have ln: "length new = length ?bc" using n(4) by (metis length_map)
  let ?st2 = "?st1\<lparr>vs := \<lparr>rows = rows (vs st) @ new, last_id = last_id (vs st) + length ?bc\<rparr>\<rparr>"
  have "batch_loop prov p chunks metadatas ntotal i st =
        batch_loop prov p chunks metadatas ntotal (i + BATCH) ?st2"
    apply (subst batch_loop.simps)
    apply (simp only: assms(1) if_True Let_def slice_py_nat add_diff_cancel_left' embed_texts_def e(1))
    apply (simp add: n(1))
    done
  moreover have "calls ?st2 = calls st + 1" by simp
  moreover have "rows (vs ?st2) = rows (vs st) @ new" by simp
  ultimately show ?thesis using n(2-5) ln by (intro exI[of _ ?st2] exI[of _ new]) simp
qed

lemma batch_loop_prefix:
  assumes "ntotal = length chunks" "length metadatas = ntotal"
    and "\<forall>j<k. i + BATCH * j < ntotal \<and> answers prov (calls st + j) (take BATCH (drop (i + BATCH * j) chunks))"
  shows "\<exists>st1 new.
           batch_loop prov p chunks metadatas ntotal i st =
             batch_loop prov p chunks metadatas ntotal (i + BATCH * k) st1
         \<and> calls st1 = calls st + k
         \<and> rows (vs st1) = rows (vs st) @ new
         \<and> map doc_id new = replicate (length new) p
         \<and> map row_text new = take (BATCH * k) (drop i chunks)
         \<and> map meta new = take (BATCH * k) (drop i metadatas)
         \<and> map chunk_id new = map (\<lambda>n. n mod BATCH) [0..<length new]"
  using assms(3)
proof (induction k)
  case 0
  show ?case by (intro exI[of _ st] exI[of _ "[]"]) simp
next
  case (Suc k)
  then have "\<forall>j<k. i + BATCH * j < ntotal \<and> answers prov (calls st + j) (take BATCH (drop (i + BATCH * j) chunks))"
    by simp
  from Suc.IH[OF this] obtain st1 new where a:
    "batch_loop prov p chunks metadatas ntotal i st =
       batch_loop prov p chunks metadatas ntotal (i + BATCH * k) st1"
    "calls st1 = calls st + k"
    "rows (vs st1) = rows (vs st) @ new"
    "map doc_id new = replicate (length new) p"
    "map row_text new = take (BATCH * k) (drop i chunks)"
    "map meta new = take (BATCH * k) (drop i metadatas)"
    "map chunk_id new = map (\<lambda>n. n mod BATCH) [0..<length new]"
    by blast
  have lt: "i + BATCH * k < ntotal"
    and an: "answers prov (calls st1) (take BATCH (drop (i + BATCH * k) chunks))"
    using Suc.prems a(2) by auto
  from batch_loop_step[OF lt assms(1,2) an, of p] obtain st2 new2 where b:
    "batch_loop prov p chunks metadatas ntotal (i + BATCH * k) st1 =
       batch_loop prov p chunks metadatas ntotal (i + BATCH * k + BATCH) st2"
    "calls st2 = calls st1 + 1"
    "rows (vs st2) = rows (vs st1) @ new2"
    "map doc_id new2 = replicate (length new2) p"
    "map row_text new2 = take BATCH (drop (i + BATCH * k) chunks)"
    "map meta new2 = take BATCH (drop (i + BATCH * k) metadatas)"
    "map chunk_id new2 = [0..<length new2]"
    by blast
  have len_new: "length new = BATCH * k"
  proof -
    have "length new = length (take (BATCH * k) (drop i chunks))" using a(5) by (metis length_map)
    then show ?thesis using lt assms(1) by simp
  qed
  have len_new2: "length new2 \<le> BATCH"
  proof -
    have "length new2 = length (take BATCH (drop (i + BATCH * k) chunks))" using b(5) by (metis length_map)
    then show ?thesis by simp
  qed
  have ids: "map chunk_id (new @ new2) = map (\<lambda>n. n mod BATCH) [0..<length (new @ new2)]"
  proof -
    have "[0..<length new + length new2] = [0..<length new] @ [length new..<length new + length new2]"
      using upt_add_eq_append[of 0 "length new" "length new2"] by simp
    moreover have "map (\<lambda>n. n mod BATCH) [length new..<length new + length new2] = [0..<length new2]"
    proof (rule nth_equalityI)
      show "length (map (\<lambda>n. n mod BATCH) [length new..<length new + length new2]) = length [0..<length new2]"
        by simp
      fix j assume "j < length (map (\<lambda>n. n mod BATCH) [length new..<length new + length new2])"
      then have j: "j < length new2" by simp
      then have "(length new + j) mod BATCH = j" using len_new2 by (simp add: len_new)
      then show "map (\<lambda>n. n mod BATCH) [length new..<length new + length new2] ! j = [0..<length new2] ! j"
        using j by simp
    qed
    ultimately show ?thesis using a(7) b(7) by simp
  qed
  have tk: "take (BATCH * Suc k) (drop i xs) = take (BATCH * k) (drop i xs) @ take BATCH (drop (i + BATCH * k) xs)" for xs :: "'a list"
  proof -
    have "BATCH * Suc k = BATCH * k + BATCH" by simp
    moreover have "drop (BATCH * k) (drop i xs) = drop (i + BATCH * k) xs"
      by (simp add: add.commute)
    ultimately show ?thesis by (simp only: take_add)
  qed
  have e1: "batch_loop prov p chunks metadatas ntotal i st =
             batch_loop prov p chunks metadatas ntotal (i + BATCH * Suc k) st2"
  proof -
    have "i + BATCH * k + BATCH = i + BATCH * Suc k" by simp
    then show ?thesis using a(1) b(1) by (simp only:)
  qed
  have e2: "calls st2 = calls st + Suc k" using a(2) b(2) by simp
  have e3: "rows (vs st2) = rows (vs st) @ (new @ new2)" using a(3) b(3) by simp
  have e4: "map doc_id (new @ new2) = replicate (length (new @ new2)) p"
    using a(4) b(4) by (simp add: replicate_add)
  have e5: "map row_text (new @ new2) = take (BATCH * Suc k) (drop i chunks)"
    using a(5) b(5) by (simp only: tk map_append)
  have e6: "map meta (new @ new2) = take (BATCH * Suc k) (drop i metadatas)"
    using a(6) b(6) by (simp only: tk map_append)
  show ?case
    using e1 e2 e3 e4 e5 e6 ids by blast
qed

lemma batch_loop_completes:
  assumes "ntotal = length chunks" "length metadatas = ntotal"
    and "\<forall>j. i + BATCH * j < ntotal \<longrightarrow>
             answers prov (calls st + j) (take BATCH (drop (i + BATCH * j) chunks))"
  shows "\<exists>st1 new.
           batch_loop prov p chunks metadatas ntotal i st = (st1, None)
         \<and> rows (vs st1) = rows (vs st) @ new
         \<and> map doc_id new = replicate (length new) p
         \<and> map row_text new = drop i chunks
         \<and> map meta new = drop i metadatas
         \<and> map chunk_id new = map (\<lambda>n. n mod BATCH) [0..<length new]"
proof -
  define k where "k = (ntotal - i + 63) div 64"
  have k1: "\<forall>j<k. i + BATCH * j < ntotal" unfolding k_def BATCH_def by auto
  have k2: "ntotal - i \<le> BATCH * k" unfolding k_def BATCH_def by auto
  have "\<forall>j<k. i + BATCH * j < ntotal \<and> answers prov (calls st + j) (take BATCH (drop (i + BATCH * j) chunks))"
    using k1 assms(3) by blast
  from batch_loop_prefix[OF assms(1,2) this, of p] obtain st1 new where a:
    "batch_loop prov p chunks metadatas ntotal i st =
       batch_loop prov p chunks metadatas ntotal (i + BATCH * k) st1"
    "rows (vs st1) = rows (vs st) @ new"
    "map doc_id new = replicate (length new) p"
    "map row_text new = take (BATCH * k) (drop i chunks)"
    "map meta new = take (BATCH * k) (drop i metadatas)"
    "map chunk_id new = map (\<lambda>n. n mod BATCH) [0..<length new]"
    by blast
  have "\<not> i + BATCH * k < ntotal" using k2 by linarith
  then have "batch_loop prov p chunks metadatas ntotal i st = (st1, None)"
    using a(1) by (simp add: batch_loop_done)
  moreover have "take (BATCH * k) (drop i chunks) = drop i chunks"
    using k2 assms(1) by simp
  moreover have "take (BATCH * k) (drop i metadatas) = drop i metadatas"
    using k2 assms(2) by simp
  ultimately show ?thesis using a(2-6) by (intro exI[of _ st1] exI[of _ new]) simp
qed

lemma batch_loop_fails:
  assumes "ntotal = length chunks" "length metadatas = ntotal"
    and "\<forall>j<k. answers prov (calls st + j) (take BATCH (drop (i + BATCH * j) chunks))"
    and "i + BATCH * k < ntotal"
    and "prov (calls st + k) (take BATCH (drop (i + BATCH * k) chunks)) = Inl e"
  shows "\<exists>st1 new.
           batch_loop prov p chunks metadatas ntotal i st = (st1, Some e)
         \<and> calls st1 = calls st + k + 1
         \<and> rows (vs st1) = rows (vs st) @ new
         \<and> map doc_id new = replicate (length new) p
         \<and> map row_text new = take (BATCH * k) (drop i chunks)
         \<and> map meta new = take (BATCH * k) (drop i metadatas)
         \<and> map chunk_id new = map (\<lambda>n. n mod BATCH) [0..<length new]"
proof -
  have "\<forall>j<k. i + BATCH * j < ntotal \<and> answers prov (calls st + j) (take BATCH (drop (i + BATCH * j) chunks))"
  proof (intro allI impI conjI)
    fix j assume "j < k"
    then have "BATCH * j \<le> BATCH * k" by simp
    then show "i + BATCH * j < ntotal" using assms(4) by linarith
    show "answers prov (calls st + j) (take BATCH (drop (i + BATCH * j) chunks))"
      using assms(3) \<open>j < k\<close> by blast
  qed
  from batch_loop_prefix[OF assms(1,2) this, of p] obtain st1 new where a:
    "batch_loop prov p chunks metadatas ntotal i st =
       batch_loop prov p chunks metadatas ntotal (i + BATCH * k) st1"
    "calls st1 = calls st + k"
    "rows (vs st1) = rows (vs st) @ new"
    "map doc_id new = replicate (length new) p"
    "map row_text new = take (BATCH * k) (drop i chunks)"
    "map meta new = take (BATCH * k) (drop i metadatas)"
    "map chunk_id new = map (\<lambda>n. n mod BATCH) [0..<length new]"
    by blast
  have "batch_loop prov p chunks metadatas ntotal (i + BATCH * k) st1 =
        (st1\<lparr>calls := calls st1 + 1\<rparr>, Some e)"
    apply (subst batch_loop.simps)
    apply (simp only: assms(4) if_True Let_def slice_py_nat add_diff_cancel_left' embed_texts_def a(2) assms(5))
    apply simp
    done
  then show ?thesis using a
    by (intro exI[of _ "st1\<lparr>calls := calls st1 + 1\<rparr>"] exI[of _ new]) simp
qed

text \<open>
  Without any assumption on the provider: rows are only appended, all for the document,
  and a loop that ends without an exception has stored every remaining chunk.
\<close>

lemma batch_loop_appends:
  assumes "ntotal = length chunks" "length metadatas = ntotal"
    and "batch_loop prov p chunks metadatas ntotal i st = (st', r)"
  shows "\<exists>new. rows (vs st') = rows (vs st) @ new
             \<and> map doc_id new = replicate (length new) p
             \<and> (r = None \<longrightarrow> length new = ntotal - i)"
  using assms(3)
proof (induction "ntotal - i" arbitrary: i st rule: less_induct)
  case less
  show ?case
  proof (cases "i < ntotal")
    case False
    then have "st' = st" "r = None" using less.prems by (simp_all add: batch_loop_done)
    then show ?thesis using False by simp
  next
    case True
    let ?bc = "take BATCH (drop i chunks)" and ?bm = "take BATCH (drop i metadatas)"
    let ?st1 = "st\<lparr>calls := calls st + 1\<rparr>"
    have unf: "batch_loop prov p chunks metadatas ntotal i st =
      (case prov (calls st) ?bc of
         Inl e \<Rightarrow> (?st1, Some e)
       | Inr embs \<Rightarrow>
           (case add_many p ?bc ?bm embs (vs st) of
              (db', Some e) \<Rightarrow> (?st1\<lparr>vs := db'\<rparr>, Some e)
            | (db', None) \<Rightarrow> batch_loop prov p chunks metadatas ntotal (i + BATCH) (?st1\<lparr>vs := db'\<rparr>)))"
      apply (subst batch_loop.simps)
      apply (simp only: True if_True Let_def slice_py_nat add_diff_cancel_left' embed_texts_def)
      apply (simp split: sum.splits)
      done
    show ?thesis
    proof (cases "prov (calls st) ?bc")
      case (Inl e)
      then have "st' = ?st1" "r = Some e" using less.prems unf by simp_all
      then show ?thesis by simp
    next
      case (Inr embs)
      obtain db' r' where am: "add_many p ?bc ?bm embs (vs st) = (db', r')"
        by (cases "add_many p ?bc ?bm embs (vs st)")
      from add_many_result[OF am] show ?thesis
      proof
        assume f: "r' = Some AssertionError \<and> db' = vs st"
        then have am': "add_many p ?bc ?bm embs (vs st) = (vs st, Some AssertionError)"
          using am by simp
        have "batch_loop prov p chunks metadatas ntotal i st = (?st1\<lparr>vs := vs st\<rparr>, Some AssertionError)"
          by (simp add: unf Inr am')
        then have "st' = ?st1\<lparr>vs := vs st\<rparr>" and "r = Some AssertionError"
          using less.prems by simp_all
        then have "vs st' = vs st" and "r \<noteq> None" by simp_all
        then show ?thesis by (intro exI[of _ "[]"]) auto
      next
        assume ok: "r' = None \<and> length ?bc = length ?bm \<and> length ?bm = length embs"
        then obtain new where n:
          "add_many p ?bc ?bm embs (vs st) =
             (\<lparr>rows = rows (vs st) @ new, last_id = last_id (vs st) + length ?bc\<rparr>, None)"
          "map doc_id new = replicate (length ?bc) p"
          "map row_text new = ?bc"
          using add_many_ok[of ?bc ?bm embs p "vs st"] by metis
        have ln: "length new = min BATCH (ntotal - i)"
          using n(3) assms(1) by (metis length_map length_take length_drop min.commute)
        let ?st2 = "?st1\<lparr>vs := \<lparr>rows = rows (vs st) @ new, last_id = last_id (vs st) + length ?bc\<rparr>\<rparr>"
        have rec: "batch_loop prov p chunks metadatas ntotal (i + BATCH) ?st2 = (st', r)"
          using less.prems unf Inr n(1) by simp
        have m: "ntotal - (i + BATCH) < ntotal - i" using True by (simp add: BATCH_def)
        from less.hyps[OF m rec] obtain new2 where n2:
          "rows (vs st') = rows (vs ?st2) @ new2"
          "map doc_id new2 = replicate (length new2) p"
          "r = None \<longrightarrow> length new2 = ntotal - (i + BATCH)"
          by blast
        have "rows (vs st') = rows (vs st) @ (new @ new2)" using n2(1) by simp
        moreover have "map doc_id (new @ new2) = replicate (length (new @ new2)) p"
          using n(2) n2(2) ln assms(1) by (simp add: replicate_add min.commute)
        moreover have "r = None \<longrightarrow> length (new @ new2) = ntotal - i"
          using n2(3) ln True by (auto simp: min_def)
        ultimately show ?thesis by blast
      qed
    qed
  qed
qed

section \<open>Indexing a file, indexing a list of files\<close>

lemma index_file_eq:
  "index_file prov f st =
     Some (index_chunks prov (path f) (fst (file_chunks f)) (snd (file_chunks f)) st)"
proof -
  obtain page_texts mode where e: "extract_text_from_pdf f = (page_texts, mode)"
    by (cases "extract_text_from_pdf f")
  have full: "mode \<noteq> ''pages'' \<Longrightarrow> page_texts = [] \<or> (\<exists>t. t \<noteq> [] \<and> page_texts = [t])"
    using e by (auto simp: extract_text_from_pdf_def Let_def split: if_splits)
  have c: "chunk_text_per_page pts 500 50 =
     Some (concat (map (\<lambda>t. page_chunks t 2000 1800) pts),
           concat (map (\<lambda>(p, t). replicate (length (page_chunks t 2000 1800)) (int p)) (enumerate 0 pts)))" for pts
    using chunk_text_per_page_closed[of pts 500 50] by simp
  show ?thesis
  proof (cases "page_texts = []")
    case True
    then show ?thesis by (simp add: index_file_def e file_chunks_def index_chunks_def)
  next
    case ne: False
    show ?thesis
    proof (cases "mode = ''pages''")
      case True
      then show ?thesis using ne by (simp add: index_file_def e file_chunks_def c)
    next
      case False
      with full ne obtain t where t: "t \<noteq> []" "page_texts = [t]" by auto
      show ?thesis using False t by (simp add: index_file_def e file_chunks_def c)
    qed
  qed
qed

lemma filter_doc_id_new:
  "map doc_id new = replicate (length new) p \<Longrightarrow>
   filter (\<lambda>r. doc_id r = q) new = (if q = p then new else [])"
proof (induction new)
  case Nil
  show ?case by simp
next
  case (Cons a new)
  then show ?case by auto
qed

lemma count_append:
  assumes "rows db' = rows db @ new" "map doc_id new = replicate (length new) p"
  shows "get_indexed_count db' q = get_indexed_count db q + (if q = p then length new else 0)"
  using assms(1) filter_doc_id_new[OF assms(2), of q] by (simp add: get_indexed_count_def)

lemma doc_texts_append:
  assumes "rows db' = rows db @ new" "map doc_id new = replicate (length new) p"
  shows "doc_texts db' q = doc_texts db q @ (if q = p then map row_text new else [])"
  using assms(1) filter_doc_id_new[OF assms(2), of q] by (simp add: doc_texts_def)

lemma count_doc_texts: "get_indexed_count db q = length (doc_texts db q)"
  by (simp add: get_indexed_count_def doc_texts_def)

lemma length_page_idxs:
  "length (concat (map (\<lambda>(p, t). replicate (length (g t)) (h p)) (enumerate n pts)))
   = length (concat (map g pts))"
  by (induction pts arbitrary: n) auto

lemma file_chunks_lengths: "length (snd (file_chunks f)) = length (fst (file_chunks f))"
  by (simp add: file_chunks_def length_page_idxs split: prod.splits)

lemma index_pdfs_single: "index_pdfs prov [f] st = index_file prov f st"
  by (simp add: index_file_eq split: prod.splits option.splits)

lemma length_metadatas:
  "length (map (\<lambda>(i, pidx). build_metadata p i pidx) (enumerate 0 page_idxs)) = length page_idxs"
  by simp

lemma index_chunks_skip:
  "length chunks \<le> get_indexed_count (vs st) p \<Longrightarrow> index_chunks prov p chunks page_idxs st = (st, None)"
  by (simp add: index_chunks_def Let_def)

lemma index_chunks_resume:
  "get_indexed_count (vs st) p < length chunks \<Longrightarrow>
   index_chunks prov p chunks page_idxs st =
     batch_loop prov p chunks (map (\<lambda>(i, pidx). build_metadata p i pidx) (enumerate 0 page_idxs))
       (length chunks) (get_indexed_count (vs st) p) st"
  by (auto simp: index_chunks_def Let_def)

lemma index_chunks_appends:
  assumes "length page_idxs = length chunks"
    and "index_chunks prov p chunks page_idxs st = (st', r)"
  shows "\<exists>new. rows (vs st') = rows (vs st) @ new
             \<and> map doc_id new = replicate (length new) p
             \<and> (r = None \<longrightarrow> length chunks \<le> get_indexed_count (vs st') p)"
proof (cases "length chunks \<le> get_indexed_count (vs st) p")
  case True
  then have "st' = st" using assms(2) by (simp add: index_chunks_skip)
  then show ?thesis using True by (intro exI[of _ "[]"]) simp
next
  case False
  then have lt: "get_indexed_count (vs st) p < length chunks" by simp
  let ?ms = "map (\<lambda>(i, pidx). build_metadata p i pidx) (enumerate 0 page_idxs)"
  have bl: "batch_loop prov p chunks ?ms (length chunks) (get_indexed_count (vs st) p) st = (st', r)"
    using assms(2) index_chunks_resume[OF lt] by simp
  have lm: "length ?ms = length chunks" using assms(1) by simp
  from batch_loop_appends[OF refl lm bl] obtain new where n:
    "rows (vs st') = rows (vs st) @ new"
    "map doc_id new = replicate (length new) p"
    "r = None \<longrightarrow> length new = length chunks - get_indexed_count (vs st) p"
    by blast
  have "r = None \<longrightarrow> length chunks \<le> get_indexed_count (vs st') p"
    using count_append[OF n(1,2), of p] n(3) lt by auto
  then show ?thesis using n(1,2) by blast
qed

lemma index_file_appends:
  assumes "index_file prov f st = Some (st', r)"
  shows "\<exists>new. rows (vs st') = rows (vs st) @ new
             \<and> map doc_id new = replicate (length new) (path f)
             \<and> (r = None \<longrightarrow> length (fst (file_chunks f)) \<le> get_indexed_count (vs st') (path f))"
  using assms index_chunks_appends[OF file_chunks_lengths, of prov "path f" f st st' r]
  by (simp add: index_file_eq)

lemma index_file_count_mono:
  assumes "index_file prov f st = Some (st', r)"
  shows "get_indexed_count (vs st) q \<le> get_indexed_count (vs st') q"
proof -
  from index_file_appends[OF assms] obtain new where
    "rows (vs st') = rows (vs st) @ new" "map doc_id new = replicate (length new) (path f)"
    by blast
  from count_append[OF this, of q] show ?thesis by simp
qed

lemma index_pdfs_Cons:
  "index_pdfs prov (f # fs) st = Some (st', r) \<Longrightarrow>
   (\<exists>e. index_file prov f st = Some (st', Some e) \<and> r = Some e) \<or>
   (\<exists>st1. index_file prov f st = Some (st1, None) \<and> index_pdfs prov fs st1 = Some (st', r))"
  by (auto simp: index_file_eq split: prod.splits option.splits)

lemma index_pdfs_count_mono:
  "index_pdfs prov fs st = Some (st', r) \<Longrightarrow>
   get_indexed_count (vs st) q \<le> get_indexed_count (vs st') q"
proof (induction fs arbitrary: st)
  case Nil
  then show ?case by simp
next
  case (Cons f fs)
  from index_pdfs_Cons[OF Cons.prems] show ?case
  proof
    assume "\<exists>e. index_file prov f st = Some (st', Some e) \<and> r = Some e"
    then show ?thesis using index_file_count_mono by blast
  next
    assume "\<exists>st1. index_file prov f st = Some (st1, None) \<and> index_pdfs prov fs st1 = Some (st', r)"
    then obtain st1 where a: "index_file prov f st = Some (st1, None)"
      "index_pdfs prov fs st1 = Some (st', r)" by blast
    have "get_indexed_count (vs st) q \<le> get_indexed_count (vs st1) q"
      using index_file_count_mono[OF a(1)] .
    also have "\<dots> \<le> get_indexed_count (vs st') q" using Cons.IH[OF a(2)] .
    finally show ?thesis .
  qed
qed

lemma index_file_skip:
  "length (fst (file_chunks f)) \<le> get_indexed_count (vs st) (path f) \<Longrightarrow>
   index_file prov f st = Some (st, None)"
  by (simp add: index_file_eq index_chunks_skip)

lemma index_pdfs_rerun:
  "index_pdfs prov fs st = Some (st', None) \<Longrightarrow> index_pdfs prov' fs st' = Some (st', None)"
proof (induction fs arbitrary: st)
  case Nil
  then show ?case by simp
next
  case (Cons f fs)
  from index_pdfs_Cons[OF Cons.prems] obtain st1 where a:
    "index_file prov f st = Some (st1, None)" "index_pdfs prov fs st1 = Some (st', None)"
    by auto
  from index_file_appends[OF a(1)]
  have "length (fst (file_chunks f)) \<le> get_indexed_count (vs st1) (path f)" by blast
  also have "\<dots> \<le> get_indexed_count (vs st') (path f)"
    using index_pdfs_count_mono[OF a(2)] .
  finally have "index_file prov' f st' = Some (st', None)" by (rule index_file_skip)
  then show ?case using Cons.IH[OF a(2)] by simp
qed

lemma file_chunks_pdf65: "fst (file_chunks pdf65) = replicate 65 ''a''"
  by code_simp

lemma answers_always_embeds: "answers always_embeds n texts"
  by (simp add: answers_def always_embeds_def)

lemma small_run: "index_pdfs always_embeds [small_pdf] fresh = Some (small_indexed, None)"
  by code_simp

lemma small_count: "length (fst (file_chunks small_pdf)) \<le> get_indexed_count (vs small_indexed) (path small_pdf)"
  by code_simp

text \<open>
  C1. The claim: for every indexed document the stored \<open>chunk_id\<close> values are exactly
  \<open>0, ..., count - 1\<close>. The code at a PDF of 65 chunks, indexed into an empty database
  with a provider that always answers: the run completes, the \<open>chunk_id\<close> column of the
  document holds \<open>0, ..., 63\<close> and then \<open>0\<close> again (the second batch is numbered from
  0 by \<open>add_many\<close>), while the \<open>chunk_index\<close> metadata of the same rows is
  \<open>0, ..., 64\<close>.
\<close>

theorem chunk_id_restarts_in_second_batch:
  "map_option (\<lambda>(st, e). (doc_chunk_ids (vs st) (path pdf65), doc_meta_indexes (vs st) (path pdf65), e))
     (index_pdfs always_embeds [pdf65] fresh)
   = Some ([0..<64] @ [0], [0..<65], None)"
  by code_simp

text \<open>
  C2. A file whose stored row count is at least the number of its chunks is skipped:
  the run leaves the state as it is (no row written, no request to the provider). And
  when a run over a list of files has completed without an exception, a second run over
  the same files, with any provider, leaves the state it finds: indexing twice stores
  what indexing once stores.
\<close>

theorem indexing_twice_is_indexing_once:
  "(length (fst (file_chunks f)) \<le> get_indexed_count (vs st) (path f)
      \<longrightarrow> index_pdfs prov [f] st = Some (st, None))
   \<and> (index_pdfs prov1 fs st1 = Some (st2, None)
      \<longrightarrow> index_pdfs prov2 fs st2 = Some (st2, None))"
  using index_file_skip[of f st prov] index_pdfs_rerun[of prov1 fs st1 st2 prov2]
  by (simp add: index_pdfs_single)

theorem indexing_twice_is_indexing_once_witness:
  "length (fst (file_chunks small_pdf)) \<le> get_indexed_count (vs small_indexed) (path small_pdf)
   \<and> index_pdfs always_embeds [small_pdf] fresh = Some (small_indexed, None)
   \<and> index_pdfs never_embeds [small_pdf] small_indexed = Some (small_indexed, None)"
  using indexing_twice_is_indexing_once[where f = small_pdf and st = small_indexed
      and prov = never_embeds and ?prov1.0 = always_embeds and fs = "[small_pdf]" and ?st1.0 = fresh
      and ?st2.0 = small_indexed and ?prov2.0 = never_embeds]
    small_run small_count
  by blast

text \<open>
  C3. Let \<open>fst (file_chunks f)\<close> be the chunks of file \<open>f\<close>, of which the first \<open>c\<close>
  are stored (\<open>c = 0\<close> for a document not indexed yet). If the provider answers the
  requests for the batches \<open>0, ..., k - 1\<close> of 64 chunks counted from \<open>c\<close> and fails on
  batch \<open>k\<close>, the run ends with that exception, and the texts stored for the document are
  exactly the first \<open>c + 64 * k\<close> chunks: every chunk of the batches before \<open>k\<close>, none of
  batch \<open>k\<close> or later; the stored count is \<open>c + 64 * k\<close>. A second run from that state,
  with a provider that answers the remaining batches, completes, and then the texts
  stored for the document are exactly its chunks, each once, in order.
\<close>

theorem provider_failure_then_resume:
  assumes stored: "doc_texts (vs st) (path f) = take c (fst (file_chunks f))"
    and c: "c + BATCH * k < length (fst (file_chunks f))"
    and ok: "\<forall>j<k. answers prov (calls st + j) (take BATCH (drop (c + BATCH * j) (fst (file_chunks f))))"
    and fail: "prov (calls st + k) (take BATCH (drop (c + BATCH * k) (fst (file_chunks f)))) = Inl e"
    and ok': "\<forall>j. c + BATCH * k + BATCH * j < length (fst (file_chunks f)) \<longrightarrow>
                answers prov' (calls st + k + 1 + j)
                  (take BATCH (drop (c + BATCH * k + BATCH * j) (fst (file_chunks f))))"
  shows "\<exists>st1 st2.
           index_pdfs prov [f] st = Some (st1, Some e)
         \<and> doc_texts (vs st1) (path f) = take (c + BATCH * k) (fst (file_chunks f))
         \<and> get_indexed_count (vs st1) (path f) = c + BATCH * k
         \<and> index_pdfs prov' [f] st1 = Some (st2, None)
         \<and> doc_texts (vs st2) (path f) = fst (file_chunks f)"
proof -
  let ?cs = "fst (file_chunks f)" and ?ps = "snd (file_chunks f)" and ?p = "path f"
  let ?ms = "map (\<lambda>(i, pidx). build_metadata ?p i pidx) (enumerate 0 ?ps)"
  have lm: "length ?ms = length ?cs" by (simp add: file_chunks_lengths)
  have cnt: "get_indexed_count (vs st) ?p = c"
    using stored c by (simp add: count_doc_texts)
  have lt: "get_indexed_count (vs st) ?p < length ?cs" using cnt c by simp
  have c': "c + BATCH * k < length ?cs" using c .
  from batch_loop_fails[OF refl lm ok c' fail, of ?p] obtain st1 new where r1:
    "batch_loop prov ?p ?cs ?ms (length ?cs) c st = (st1, Some e)"
    "calls st1 = calls st + k + 1"
    "rows (vs st1) = rows (vs st) @ new"
    "map doc_id new = replicate (length new) ?p"
    "map row_text new = take (BATCH * k) (drop c ?cs)"
    by blast
  have run1: "index_pdfs prov [f] st = Some (st1, Some e)"
    using r1(1) index_chunks_resume[OF lt, of prov ?ps] by (simp add: index_pdfs_single index_file_eq cnt)
  have t1: "doc_texts (vs st1) ?p = take (c + BATCH * k) ?cs"
    using doc_texts_append[OF r1(3,4), of ?p] stored r1(5) by (simp add: take_add)
  have cnt1: "get_indexed_count (vs st1) ?p = c + BATCH * k"
    using t1 c by (simp add: count_doc_texts)
  have lt1: "get_indexed_count (vs st1) ?p < length ?cs" using cnt1 c by simp
  have ok1: "\<forall>j. c + BATCH * k + BATCH * j < length ?cs \<longrightarrow>
               answers prov' (calls st1 + j) (take BATCH (drop (c + BATCH * k + BATCH * j) ?cs))"
    using ok' r1(2) by simp
  from batch_loop_completes[OF refl lm ok1, of ?p] obtain st2 new2 where r2:
    "batch_loop prov' ?p ?cs ?ms (length ?cs) (c + BATCH * k) st1 = (st2, None)"
    "rows (vs st2) = rows (vs st1) @ new2"
    "map doc_id new2 = replicate (length new2) ?p"
    "map row_text new2 = drop (c + BATCH * k) ?cs"
    by blast
  have run2: "index_pdfs prov' [f] st1 = Some (st2, None)"
    using r2(1) index_chunks_resume[OF lt1, of prov' ?ps] by (simp add: index_pdfs_single index_file_eq cnt1)
  have t2: "doc_texts (vs st2) ?p = ?cs"
    using doc_texts_append[OF r2(2,3), of ?p] t1 r2(4) by simp
  show ?thesis using run1 t1 cnt1 run2 t2 by blast
qed

theorem provider_failure_then_resume_witness:
  "doc_texts (vs fresh) (path pdf65) = take 0 (fst (file_chunks pdf65))
   \<and> 0 + BATCH * 1 < length (fst (file_chunks pdf65))
   \<and> answers fails_on_second (calls fresh + 0) (take BATCH (drop (0 + BATCH * 0) (fst (file_chunks pdf65))))
   \<and> fails_on_second (calls fresh + 1) (take BATCH (drop (0 + BATCH * 1) (fst (file_chunks pdf65)))) = Inl ProviderError
   \<and> (\<exists>st1 st2.
           index_pdfs fails_on_second [pdf65] fresh = Some (st1, Some ProviderError)
         \<and> doc_texts (vs st1) (path pdf65) = take (0 + BATCH * 1) (fst (file_chunks pdf65))
         \<and> get_indexed_count (vs st1) (path pdf65) = 0 + BATCH * 1
         \<and> index_pdfs always_embeds [pdf65] st1 = Some (st2, None)
         \<and> doc_texts (vs st2) (path pdf65) = fst (file_chunks pdf65))"
proof -
  have h1: "doc_texts (vs fresh) (path pdf65) = take 0 (fst (file_chunks pdf65))"
    by (simp add: doc_texts_def fresh_def empty_store_def)
  have h2: "0 + BATCH * 1 < length (fst (file_chunks pdf65))"
    by (simp add: file_chunks_pdf65 BATCH_def)
  have h3: "\<forall>j<1. answers fails_on_second (calls fresh + j) (take BATCH (drop (0 + BATCH * j) (fst (file_chunks pdf65))))"
    by (simp add: answers_def fails_on_second_def fresh_def)
  have h4: "fails_on_second (calls fresh + 1) (take BATCH (drop (0 + BATCH * 1) (fst (file_chunks pdf65)))) = Inl ProviderError"
    by (simp add: fails_on_second_def)
  have h5: "\<forall>j. 0 + BATCH * 1 + BATCH * j < length (fst (file_chunks pdf65)) \<longrightarrow>
                answers always_embeds (calls fresh + 1 + 1 + j)
                  (take BATCH (drop (0 + BATCH * 1 + BATCH * j) (fst (file_chunks pdf65))))"
    by (simp add: answers_always_embeds)
  have h3': "answers fails_on_second (calls fresh + 0) (take BATCH (drop (0 + BATCH * 0) (fst (file_chunks pdf65))))"
    using h3 by blast
  from provider_failure_then_resume[OF h1 h2 h3 h4 h5] h1 h2 h3' h4 show ?thesis by blast
qed

section \<open>Similarity search\<close>

lemma slice_py_0:
  "slice_py xs 0 k = (if 0 \<le> k then take (nat k) xs else take (length xs - nat (- k)) xs)"
proof (cases "0 \<le> k")
  case True
  then show ?thesis by (simp add: slice_py_def slice_bound_def Let_def min_def)
next
  case False
  have "nat (max 0 (k + int (length xs))) = length xs - nat (- k)" using False by linarith
  then show ?thesis using False by (simp add: slice_py_def slice_bound_def Let_def)
qed

lemma slice_py_0_prefix: "\<exists>m. slice_py xs 0 k = take m xs"
  by (auto simp: slice_py_0)

lemma contract_matmul:
  "numpy_contract np \<Longrightarrow> list_all (\<lambda>r. length r = length q) m \<Longrightarrow> length (np_matmul np m q) = length m"
  by (simp add: numpy_contract_def)

lemma contract_perm: "numpy_contract np \<Longrightarrow> sort (np_argsort np keys) = [0..<length keys]"
  by (simp add: numpy_contract_def)

lemma contract_sorted:
  "numpy_contract np \<Longrightarrow> sorted_wrt (\<lambda>i j. np_le np (keys ! i) (keys ! j)) (np_argsort np keys)"
  by (simp add: numpy_contract_def)

lemma argsort_mset: "numpy_contract np \<Longrightarrow> mset (np_argsort np keys) = mset [0..<length keys]"
  using contract_perm[of np keys] by (metis mset_sort)

lemma argsort_set: "numpy_contract np \<Longrightarrow> set (np_argsort np keys) = {0..<length keys}"
  using argsort_mset[THEN mset_eq_setD, of np keys] by simp

lemma argsort_length: "numpy_contract np \<Longrightarrow> length (np_argsort np keys) = length keys"
  using argsort_mset[THEN mset_eq_length, of np keys] by simp

lemma argsort_distinct: "numpy_contract np \<Longrightarrow> distinct (np_argsort np keys)"
  using argsort_mset[of np keys] by (metis distinct_upt mset_eq_imp_distinct_iff)

lemma sims_of_length:
  assumes "numpy_contract np" "dims_ok db q"
  shows "length (sims_of np db q) = length (rows db)"
proof -
  have "list_all (\<lambda>r. length r = length (map (np_float32 np) q))
          (map (\<lambda>r. map (np_float32 np) (embedding r)) (rows db))"
    using assms(2) by (simp add: dims_ok_def list_all_iff)
  from contract_matmul[OF assms(1) this] show ?thesis by (simp add: sims_of_def)
qed

lemma search_empty: "rows db = [] \<Longrightarrow> search np q top_k db = Inr []"
  by (simp add: search_def all_rows_def)

lemma search_nonempty:
  assumes "dims_ok db q" "rows db \<noteq> []"
  shows "search np q top_k db =
     Inr (map (\<lambda>idx. hit_of (rows db ! idx) (sims_of np db q ! idx)) (ranking np q top_k db))"
proof -
  from assms(2) obtain r rs where r: "rows db = r # rs" by (cases "rows db") auto
  have l: "length (embedding r) = length q" using assms(1) by (simp add: dims_ok_def r)
  have a: "list_all (\<lambda>e. length e = length (embedding r)) (map embedding (rows db))"
    using assms(1) l by (simp add: dims_ok_def list_all_iff)
  show ?thesis
    using a l unfolding search_def all_rows_def Let_def sims_of_def ranking_def hit_of_def
    by (simp add: r)
qed

text \<open>
  With embeddings of different dimensions, or a query of another dimension, NumPy raises,
  whatever \<open>top_k\<close> is.
\<close>

lemma search_dimension_mismatch:
  assumes "\<not> dims_ok db q"
  shows "search np q top_k db = Inl ValueError"
proof -
  from assms obtain r rs where r: "rows db = r # rs"
    by (cases "rows db") (auto simp: dims_ok_def)
  show ?thesis
  proof (cases "list_all (\<lambda>e. length e = length (embedding r)) (map embedding (rows db))")
    case False
    then show ?thesis by (simp add: search_def all_rows_def r)
  next
    case True
    then have "length (embedding r) \<noteq> length q"
      using assms by (auto simp: dims_ok_def r list_all_iff)
    with True show ?thesis by (simp add: search_def all_rows_def r Let_def)
  qed
qed

lemma ranking_in_range:
  assumes "numpy_contract np" "dims_ok db q"
  shows "set (ranking np q top_k db) \<subseteq> {0..<length (rows db)}"
    and "distinct (ranking np q top_k db)"
proof -
  let ?keys = "map (np_neg np) (sims_of np db q)"
  obtain m where m: "ranking np q top_k db = take m (np_argsort np ?keys)"
    unfolding ranking_def using slice_py_0_prefix by blast
  have "set (np_argsort np ?keys) = {0..<length (rows db)}"
    using argsort_set[OF assms(1), of ?keys] sims_of_length[OF assms] by simp
  then show "set (ranking np q top_k db) \<subseteq> {0..<length (rows db)}"
    using set_take_subset[of m "np_argsort np ?keys"] by (simp add: m)
  show "distinct (ranking np q top_k db)"
    using argsort_distinct[OF assms(1), of ?keys] by (simp add: m)
qed

lemma search_ranking:
  assumes "numpy_contract np" "dims_ok db q"
  shows "search np q top_k db =
     Inr (map (\<lambda>idx. hit_of (rows db ! idx) (sims_of np db q ! idx)) (ranking np q top_k db))"
proof (cases "rows db = []")
  case True
  have "sims_of np db q = []" by (simp add: sims_of_def True)
  then have "np_argsort np (map (np_neg np) (sims_of np db q)) = []"
    using argsort_length[OF assms(1), of "[]"] by simp
  then show ?thesis using True by (simp add: search_empty ranking_def slice_py_def)
next
  case False
  show ?thesis by (rule search_nonempty[OF assms(2) False])
qed

lemma ranking_sorted:
  assumes "numpy_contract np"
  shows "sorted_wrt (\<lambda>i j. np_le np (map (np_neg np) (sims_of np db q) ! i)
                              (map (np_neg np) (sims_of np db q) ! j))
           (ranking np q top_k db)"
proof -
  let ?keys = "map (np_neg np) (sims_of np db q)"
  obtain m where m: "ranking np q top_k db = take m (np_argsort np ?keys)"
    unfolding ranking_def using slice_py_0_prefix by blast
  show ?thesis unfolding m using contract_sorted[OF assms, of ?keys] by (rule sorted_wrt_take)
qed

lemma ranking_length:
  assumes "numpy_contract np" "dims_ok db q" "0 \<le> top_k"
  shows "length (ranking np q top_k db) = min (nat top_k) (length (rows db))"
  using argsort_length[OF assms(1), of "map (np_neg np) (sims_of np db q)"]
    sims_of_length[OF assms(1,2)] assms(3)
  by (simp add: ranking_def slice_py_0)

lemma ranking_all:
  assumes "numpy_contract np" "dims_ok db q" "int (length (rows db)) \<le> top_k"
  shows "ranking np q top_k db = np_argsort np (map (np_neg np) (sims_of np db q))"
    and "mset (ranking np q top_k db) = mset [0..<length (rows db)]"
proof -
  let ?keys = "map (np_neg np) (sims_of np db q)"
  have l: "length (np_argsort np ?keys) = length (rows db)"
    using argsort_length[OF assms(1), of ?keys] sims_of_length[OF assms(1,2)] by simp
  show r: "ranking np q top_k db = np_argsort np ?keys"
    using l assms(3) by (simp add: ranking_def slice_py_0)
  show "mset (ranking np q top_k db) = mset [0..<length (rows db)]"
    using argsort_mset[OF assms(1), of ?keys] sims_of_length[OF assms(1,2)] by (simp add: r)
qed

lemma ideal_numpy_contract: "numpy_contract ideal_numpy"
proof -
  have p: "sort (sort_key (\<lambda>i. keys ! i) [0..<length keys]) = [0..<length keys]" for keys :: "real list"
    by (rule properties_for_sort) simp_all
  have s: "sorted_wrt (\<lambda>i j. keys ! i \<le> keys ! j) (sort_key (\<lambda>i. keys ! i) [0..<length keys])"
    for keys :: "real list"
  proof -
    have "sorted (map (\<lambda>i. keys ! i) (sort_key (\<lambda>i. keys ! i) [0..<length keys]))"
      by (rule sorted_sort_key)
    then show ?thesis by (simp add: sorted_wrt_map)
  qed
  show ?thesis using p s by (simp add: numpy_contract_def ideal_numpy_def)
qed

text \<open>
  C6. On an empty store \<open>search\<close> returns the empty list, whatever the query and
  \<open>top_k\<close>. On a store of \<open>N\<close> rows whose embeddings have the dimension of the query, with
  NumPy operations that keep their promises: for positive \<open>top_k\<close> it returns exactly
  \<open>min(top_k, N)\<close> results and no error; and when \<open>top_k\<close> exceeds \<open>N\<close> the rows returned
  are those at all of \<open>np.argsort(-sims)\<close>, every row exactly once, each with the score
  NumPy computed for it, ordered by the negated scores in NumPy's order.
\<close>

theorem search_returns_min_top_k:
  assumes "numpy_contract np"
  shows "(rows db0 = [] \<longrightarrow> search np q0 k0 db0 = Inr [])
       \<and> (dims_ok db q \<and> 0 < top_k \<longrightarrow>
            (\<exists>res. search np q top_k db = Inr res
                 \<and> length res = min (nat top_k) (length (rows db))))
       \<and> (dims_ok db q \<and> int (length (rows db)) < top_k \<longrightarrow>
            search np q top_k db =
              Inr (map (\<lambda>i. hit_of (rows db ! i) (sims_of np db q ! i)) (ranking np q top_k db))
          \<and> ranking np q top_k db = np_argsort np (map (np_neg np) (sims_of np db q))
          \<and> mset (ranking np q top_k db) = mset [0..<length (rows db)]
          \<and> sorted_wrt (\<lambda>i j. np_le np (map (np_neg np) (sims_of np db q) ! i)
                                    (map (np_neg np) (sims_of np db q) ! j))
               (ranking np q top_k db))"
proof (intro conjI impI)
  assume "rows db0 = []"
  then show "search np q0 k0 db0 = Inr []" by (rule search_empty)
next
  assume a: "dims_ok db q \<and> 0 < top_k"
  then have "length (ranking np q top_k db) = min (nat top_k) (length (rows db))"
    using ranking_length[OF assms, of db q top_k] by simp
  then show "\<exists>res. search np q top_k db = Inr res
                 \<and> length res = min (nat top_k) (length (rows db))"
    using search_ranking[OF assms, of db q top_k] a by simp
next
  assume a: "dims_ok db q \<and> int (length (rows db)) < top_k"
  show "search np q top_k db =
          Inr (map (\<lambda>i. hit_of (rows db ! i) (sims_of np db q ! i)) (ranking np q top_k db))"
    using search_ranking[OF assms, of db q top_k] a by simp
  show "ranking np q top_k db = np_argsort np (map (np_neg np) (sims_of np db q))"
    using ranking_all(1)[OF assms, of db q top_k] a by simp
  show "mset (ranking np q top_k db) = mset [0..<length (rows db)]"
    using ranking_all(2)[OF assms, of db q top_k] a by simp
  show "sorted_wrt (\<lambda>i j. np_le np (map (np_neg np) (sims_of np db q) ! i)
                                (map (np_neg np) (sims_of np db q) ! j))
          (ranking np q top_k db)"
    using assms by (rule ranking_sorted)
qed

theorem search_returns_min_top_k_witness:
  "numpy_contract ideal_numpy
   \<and> rows empty_store = []
   \<and> search ideal_numpy [1, 0] 5 empty_store = Inr []
   \<and> dims_ok example_store [1, 0] \<and> (0::int) < 5 \<and> int (length (rows example_store)) < 5
   \<and> (\<exists>res. search ideal_numpy [1, 0] 5 example_store = Inr res
          \<and> length res = min (nat 5) (length (rows example_store)))
   \<and> mset (ranking ideal_numpy [1, 0] 5 example_store) = mset [0..<length (rows example_store)]"
proof -
  have d: "dims_ok example_store [1, 0]" by (simp add: dims_ok_def example_store_def)
  have l: "int (length (rows example_store)) < 5" by (simp add: example_store_def)
  have n: "rows empty_store = []" by (simp add: empty_store_def)
  have z: "(0::int) < 5" by simp
  from search_returns_min_top_k[OF ideal_numpy_contract, of empty_store "[1, 0]" 5 example_store "[1, 0]" 5]
    d l n z ideal_numpy_contract
  show ?thesis by blast
qed

text \<open>
  C10, as the claim states it: with \<open>top_k = 0\<close>, \<open>search\<close> returns the empty list for
  every store and every query vector. On the store of three rows with embeddings of
  dimension 2 and the query \<open>[1, 0, 0]\<close>, \<open>matrix @ query\<close> raises \<open>ValueError\<close> before
  \<open>top_k\<close> is used.
\<close>

theorem search_top_k_zero_wrong_dimension:
  "search ideal_numpy [1, 0, 0] 0 example_store = Inl ValueError"
proof -
  have "\<not> dims_ok example_store [1, 0, 0]" by (simp add: dims_ok_def example_store_def)
  then show ?thesis by (rule search_dimension_mismatch)
qed

text \<open>
  C10, amended. With \<open>top_k = 0\<close>, on every store whose embeddings have the dimension of
  the query vector (the empty store among them, with any query), and whatever NumPy's
  arithmetic and sort do, \<open>search\<close> returns the empty list and no error.
\<close>

theorem search_top_k_zero:
  "dims_ok db q \<Longrightarrow> search np q 0 db = Inr []"
proof (cases "rows db = []")
  case True
  then show ?thesis by (simp add: search_empty)
next
  case False
  assume "dims_ok db q"
  from search_nonempty[OF this False, of np 0] show ?thesis
    by (simp add: ranking_def slice_py_0)
qed

theorem search_top_k_zero_witness:
  "dims_ok example_store [1, 0] \<and> search ideal_numpy [1, 0] 0 example_store = Inr []"
proof -
  have d: "dims_ok example_store [1, 0]" by (simp add: dims_ok_def example_store_def)
  from search_top_k_zero[OF d, of ideal_numpy] d show ?thesis by simp
qed

end
